theory Spec2Isabelle
  imports Main
begin

section \<open>Object tasks: Rectangle and the CSS selector builder\<close>

text \<open>
  A shallow embedding of \<^verbatim>\<open>src/05-objects-tasks.js\<close>. Objects are records, a
  \<^verbatim>\<open>throw Error(msg)\<close> is a value carrying the message together with the state the
  callee had reached when it threw (JavaScript does not undo the assignments made before
  the throw), and object identity is a reference into an explicit store.
\<close>

subsection \<open>Rectangle\<close>

text \<open>
  \<^verbatim>\<open>new Rectangle(width, height)\<close> assigns both parameters to \<^verbatim>\<open>this\<close> and then
  returns an object literal, which replaces \<^verbatim>\<open>this\<close> as the value of the
  \<^verbatim>\<open>new\<close> expression. The literal's \<^verbatim>\<open>getArea\<close> closes over the parameters, not
  over the fields; the captured parameters are the \<open>env\<close> fields. The arithmetic of
  JavaScript numbers is left abstract: any type with a multiplication.
\<close>

record 'n this_Rectangle =
  this_width :: 'n
  this_height :: 'n

record 'n rectangle =
  width :: 'n
  height :: 'n
  env_width :: 'n
  env_height :: 'n

definition Rectangle :: "'n \<Rightarrow> 'n \<Rightarrow> 'n rectangle" where
  "Rectangle w h =
     (let this = \<lparr>this_width = w, this_height = h\<rparr>
      in \<lparr>width = this_width this, height = this_height this,
          env_width = w, env_height = h\<rparr>)"

definition getArea :: "('n::times) rectangle \<Rightarrow> 'n" where
  "getArea r = env_width r * env_height r"

subsection \<open>CssCreator\<close>

datatype error = Error string

definition order_message :: string where
  "order_message =
     ''Selector parts should be arranged in the following order: element, id, class, attribute, pseudo-class, pseudo-element''"

definition duplicate_message :: string where
  "duplicate_message =
     ''Element, id and pseudo-element should not occur more then one time inside the selector''"

abbreviation OrderViolation :: error where
  "OrderViolation \<equiv> Error order_message"

abbreviation DuplicateViolation :: error where
  "DuplicateViolation \<equiv> Error duplicate_message"

text \<open>
  The fields of the class. \<open>val\<close> is \<^verbatim>\<open>this.value\<close> (\<open>None\<close> is
  \<^verbatim>\<open>undefined\<close>: the facade constructs without an argument), \<open>sortL\<close> is
  \<^verbatim>\<open>this.sort\<close>. The counters only ever grow by one from zero, so they are
  natural numbers.
\<close>

record CssCreator =
  val :: "string option"
  template :: string
  counterE :: nat
  counterId :: nat
  counterPe :: nat
  sortL :: "string list"
  sequence :: "string list"

definition CssCreator_constructor :: "string option \<Rightarrow> CssCreator" where
  "CssCreator_constructor v =
     \<lparr>val = v, template = [], counterE = 0, counterId = 0, counterPe = 0, sortL = [],
      sequence = [''element'', ''id'', ''class'', ''attr'', ''pseudoClass'', ''pseudoElement'']\<rparr>"

text \<open>\<^verbatim>\<open>Array.prototype.indexOf\<close>: the first position of the element, \<open>-1\<close> when absent.\<close>

fun indexOf :: "'a list \<Rightarrow> 'a \<Rightarrow> int" where
  "indexOf [] x = - 1"
| "indexOf (y # ys) x =
     (if y = x then 0 else (let i = indexOf ys x in if i < 0 then - 1 else i + 1))"

text \<open>The outcome of a method call: it returns \<^verbatim>\<open>this\<close>, or throws; both with the
  receiver's state as the call left it.\<close>

datatype outcome = Returned CssCreator | Thrown error CssCreator

fun state_of :: "outcome \<Rightarrow> CssCreator" where
  "state_of (Returned c) = c"
| "state_of (Thrown e c) = c"

fun is_Thrown :: "outcome \<Rightarrow> bool" where
  "is_Thrown (Returned c) = False"
| "is_Thrown (Thrown e c) = True"

definition CssCreator_checkValid :: "string \<Rightarrow> CssCreator \<Rightarrow> error option" where
  "CssCreator_checkValid selector c =
     (if length (sortL c) > 1 then
        (let prevSelector = sortL c ! (length (sortL c) - 2)
         in if indexOf (sequence c) selector < indexOf (sequence c) prevSelector
            then Some (Error order_message) else None)
      else None)"

definition CssCreator_element :: "string \<Rightarrow> CssCreator \<Rightarrow> outcome" where
  "CssCreator_element v c =
     (let c1 = c\<lparr>sortL := sortL c @ [''element'']\<rparr>
      in case CssCreator_checkValid ''element'' c1 of
           Some e \<Rightarrow> Thrown e c1
         | None \<Rightarrow>
            (let c2 = c1\<lparr>counterE := counterE c1 + 1\<rparr>
             in if counterE c2 > 1 then Thrown (Error duplicate_message) c2
                else Returned (c2\<lparr>template := template c2 @ v\<rparr>)))"

definition CssCreator_id :: "string \<Rightarrow> CssCreator \<Rightarrow> outcome" where
  "CssCreator_id v c =
     (let c1 = c\<lparr>sortL := sortL c @ [''id'']\<rparr>
      in case CssCreator_checkValid ''id'' c1 of
           Some e \<Rightarrow> Thrown e c1
         | None \<Rightarrow>
            (let c2 = c1\<lparr>counterId := counterId c1 + 1\<rparr>
             in if counterId c2 > 1 then Thrown (Error duplicate_message) c2
                else Returned (c2\<lparr>template := template c2 @ ''#'' @ v\<rparr>)))"

definition CssCreator_class :: "string \<Rightarrow> CssCreator \<Rightarrow> outcome" where
  "CssCreator_class v c =
     (let c1 = c\<lparr>sortL := sortL c @ [''class'']\<rparr>
      in case CssCreator_checkValid ''class'' c1 of
           Some e \<Rightarrow> Thrown e c1
         | None \<Rightarrow> Returned (c1\<lparr>template := template c1 @ ''.'' @ v\<rparr>))"

definition CssCreator_attr :: "string \<Rightarrow> CssCreator \<Rightarrow> outcome" where
  "CssCreator_attr v c =
     (let c1 = c\<lparr>sortL := sortL c @ [''attr'']\<rparr>
      in case CssCreator_checkValid ''attr'' c1 of
           Some e \<Rightarrow> Thrown e c1
         | None \<Rightarrow> Returned (c1\<lparr>template := template c1 @ ''['' @ v @ '']''\<rparr>))"

definition CssCreator_pseudoClass :: "string \<Rightarrow> CssCreator \<Rightarrow> outcome" where
  "CssCreator_pseudoClass v c =
     (let c1 = c\<lparr>sortL := sortL c @ [''pseudoClass'']\<rparr>
      in case CssCreator_checkValid ''pseudoClass'' c1 of
           Some e \<Rightarrow> Thrown e c1
         | None \<Rightarrow> Returned (c1\<lparr>template := template c1 @ '':'' @ v\<rparr>))"

definition CssCreator_pseudoElement :: "string \<Rightarrow> CssCreator \<Rightarrow> outcome" where
  "CssCreator_pseudoElement v c =
     (let c1 = c\<lparr>sortL := sortL c @ [''pseudoElement'']\<rparr>
      in case CssCreator_checkValid ''pseudoElement'' c1 of
           Some e \<Rightarrow> Thrown e c1
         | None \<Rightarrow>
            (let c2 = c1\<lparr>counterPe := counterPe c1 + 1\<rparr>
             in if counterPe c2 > 1 then Thrown (Error duplicate_message) c2
                else Returned (c2\<lparr>template := template c2 @ ''::'' @ v\<rparr>)))"

text \<open>The method \<^verbatim>\<open>combine\<close> receives the two operands already stringified.\<close>

definition CssCreator_combine :: "string \<Rightarrow> string \<Rightarrow> string \<Rightarrow> CssCreator \<Rightarrow> outcome" where
  "CssCreator_combine selector1 combinator selector2 c =
     Returned (c\<lparr>template := template c @ selector1 @ '' '' @ combinator @ '' '' @ selector2\<rparr>)"

definition CssCreator_stringify :: "CssCreator \<Rightarrow> string" where
  "CssCreator_stringify c = template c"

subsection \<open>The store, and the facade cssSelectorBuilder\<close>

text \<open>
  Builders are objects with identity: a reference is a position in the store, and
  \<^verbatim>\<open>new\<close> allocates the next position. A method call reads the receiver, writes
  back the state the call reached, and returns the receiver's own reference
  (\<^verbatim>\<open>return this\<close>) or the error.
\<close>

type_synonym ref = nat
type_synonym store = "CssCreator list"

definition new_CssCreator :: "string option \<Rightarrow> store \<Rightarrow> ref \<times> store" where
  "new_CssCreator v h = (length h, h @ [CssCreator_constructor v])"

definition invoke :: "(CssCreator \<Rightarrow> outcome) \<Rightarrow> ref \<Rightarrow> store \<Rightarrow> (error + ref) \<times> store" where
  "invoke m r h =
     (case m (h ! r) of
        Returned c \<Rightarrow> (Inr r, h[r := c])
      | Thrown e c \<Rightarrow> (Inl e, h[r := c]))"

text \<open>Each entry point constructs a builder, calls the method on it, discards what the
  method returned and returns its own \<^verbatim>\<open>Css\<close>; an error of the method propagates.\<close>

definition cssSelectorBuilder_element :: "string \<Rightarrow> store \<Rightarrow> (error + ref) \<times> store" where
  "cssSelectorBuilder_element v h =
     (let (Css, h1) = new_CssCreator None h
      in case invoke (CssCreator_element v) Css h1 of
           (Inl e, h2) \<Rightarrow> (Inl e, h2)
         | (Inr _, h2) \<Rightarrow> (Inr Css, h2))"

definition cssSelectorBuilder_id :: "string \<Rightarrow> store \<Rightarrow> (error + ref) \<times> store" where
  "cssSelectorBuilder_id v h =
     (let (Css, h1) = new_CssCreator None h
      in case invoke (CssCreator_id v) Css h1 of
           (Inl e, h2) \<Rightarrow> (Inl e, h2)
         | (Inr _, h2) \<Rightarrow> (Inr Css, h2))"

definition cssSelectorBuilder_class :: "string \<Rightarrow> store \<Rightarrow> (error + ref) \<times> store" where
  "cssSelectorBuilder_class v h =
     (let (Css, h1) = new_CssCreator None h
      in case invoke (CssCreator_class v) Css h1 of
           (Inl e, h2) \<Rightarrow> (Inl e, h2)
         | (Inr _, h2) \<Rightarrow> (Inr Css, h2))"

definition cssSelectorBuilder_attr :: "string \<Rightarrow> store \<Rightarrow> (error + ref) \<times> store" where
  "cssSelectorBuilder_attr v h =
     (let (Css, h1) = new_CssCreator None h
      in case invoke (CssCreator_attr v) Css h1 of
           (Inl e, h2) \<Rightarrow> (Inl e, h2)
         | (Inr _, h2) \<Rightarrow> (Inr Css, h2))"

definition cssSelectorBuilder_pseudoClass :: "string \<Rightarrow> store \<Rightarrow> (error + ref) \<times> store" where
  "cssSelectorBuilder_pseudoClass v h =
     (let (Css, h1) = new_CssCreator None h
      in case invoke (CssCreator_pseudoClass v) Css h1 of
           (Inl e, h2) \<Rightarrow> (Inl e, h2)
         | (Inr _, h2) \<Rightarrow> (Inr Css, h2))"

definition cssSelectorBuilder_pseudoElement :: "string \<Rightarrow> store \<Rightarrow> (error + ref) \<times> store" where
  "cssSelectorBuilder_pseudoElement v h =
     (let (Css, h1) = new_CssCreator None h
      in case invoke (CssCreator_pseudoElement v) Css h1 of
           (Inl e, h2) \<Rightarrow> (Inl e, h2)
         | (Inr _, h2) \<Rightarrow> (Inr Css, h2))"

definition cssSelectorBuilder_combine ::
    "ref \<Rightarrow> string \<Rightarrow> ref \<Rightarrow> store \<Rightarrow> (error + ref) \<times> store" where
  "cssSelectorBuilder_combine selector1 combinator selector2 h =
     (let (Css, h1) = new_CssCreator None h
      in case invoke (CssCreator_combine (CssCreator_stringify (h1 ! selector1)) combinator
                        (CssCreator_stringify (h1 ! selector2))) Css h1 of
           (Inl e, h2) \<Rightarrow> (Inl e, h2)
         | (Inr _, h2) \<Rightarrow> (Inr Css, h2))"

subsection \<open>Chains of calls\<close>

text \<open>
  A fragment call is a method name with its argument. \<open>call\<close> dispatches to the method of
  the class, \<open>facade\<close> to the entry point of the same name. In a chain
  \<^verbatim>\<open>builder.m0(v0).m1(v1)...\<close> every call is made on what the call before it returned,
  and the first throw ends the chain.
\<close>

datatype frag =
    CallElement string
  | CallId string
  | CallClass string
  | CallAttr string
  | CallPseudoClass string
  | CallPseudoElement string

fun call :: "frag \<Rightarrow> CssCreator \<Rightarrow> outcome" where
  "call (CallElement v) = CssCreator_element v"
| "call (CallId v) = CssCreator_id v"
| "call (CallClass v) = CssCreator_class v"
| "call (CallAttr v) = CssCreator_attr v"
| "call (CallPseudoClass v) = CssCreator_pseudoClass v"
| "call (CallPseudoElement v) = CssCreator_pseudoElement v"

fun facade :: "frag \<Rightarrow> store \<Rightarrow> (error + ref) \<times> store" where
  "facade (CallElement v) = cssSelectorBuilder_element v"
| "facade (CallId v) = cssSelectorBuilder_id v"
| "facade (CallClass v) = cssSelectorBuilder_class v"
| "facade (CallAttr v) = cssSelectorBuilder_attr v"
| "facade (CallPseudoClass v) = cssSelectorBuilder_pseudoClass v"
| "facade (CallPseudoElement v) = cssSelectorBuilder_pseudoElement v"

fun run_chain :: "frag list \<Rightarrow> (error + ref) \<times> store \<Rightarrow> (error + ref) \<times> store" where
  "run_chain [] res = res"
| "run_chain (f # fs) (Inl e, h) = (Inl e, h)"
| "run_chain (f # fs) (Inr r, h) = run_chain fs (invoke (call f) r h)"

text \<open>The same chain on the receiver alone, without the store.\<close>

fun calls :: "frag list \<Rightarrow> CssCreator \<Rightarrow> outcome" where
  "calls [] c = Returned c"
| "calls (f # fs) c =
     (case call f c of Returned c' \<Rightarrow> calls fs c' | Thrown e c' \<Rightarrow> Thrown e c')"

text \<open>A caller that catches every error and goes on calling the same instance.\<close>

fun calls_caught :: "frag list \<Rightarrow> CssCreator \<Rightarrow> CssCreator" where
  "calls_caught [] c = c"
| "calls_caught (f # fs) c = calls_caught fs (state_of (call f c))"

text \<open>The vocabulary of the specification: the name, the rank and the rendered form of
  a fragment kind, and the kinds limited to one occurrence.\<close>

fun kind_name :: "frag \<Rightarrow> string" where
  "kind_name (CallElement v) = ''element''"
| "kind_name (CallId v) = ''id''"
| "kind_name (CallClass v) = ''class''"
| "kind_name (CallAttr v) = ''attr''"
| "kind_name (CallPseudoClass v) = ''pseudoClass''"
| "kind_name (CallPseudoElement v) = ''pseudoElement''"

fun rank_of :: "frag \<Rightarrow> nat" where
  "rank_of (CallElement v) = 0"
| "rank_of (CallId v) = 1"
| "rank_of (CallClass v) = 2"
| "rank_of (CallAttr v) = 3"
| "rank_of (CallPseudoClass v) = 4"
| "rank_of (CallPseudoElement v) = 5"

fun render :: "frag \<Rightarrow> string" where
  "render (CallElement v) = v"
| "render (CallId v) = ''#'' @ v"
| "render (CallClass v) = ''.'' @ v"
| "render (CallAttr v) = ''['' @ v @ '']''"
| "render (CallPseudoClass v) = '':'' @ v"
| "render (CallPseudoElement v) = ''::'' @ v"

fun at_most_once :: "frag \<Rightarrow> bool" where
  "at_most_once (CallElement v) = True"
| "at_most_once (CallId v) = True"
| "at_most_once (CallPseudoElement v) = True"
| "at_most_once f = False"

definition occurrences :: "string \<Rightarrow> frag list \<Rightarrow> nat" where
  "occurrences k fs = length (filter (\<lambda>g. kind_name g = k) fs)"

text \<open>A valid chain: ranks never decrease, and element, id and pseudoElement occur at
  most once each.\<close>

definition valid_chain :: "frag list \<Rightarrow> bool" where
  "valid_chain fs \<longleftrightarrow>
     sorted (map rank_of fs) \<and> occurrences ''element'' fs \<le> 1 \<and>
     occurrences ''id'' fs \<le> 1 \<and> occurrences ''pseudoElement'' fs \<le> 1"

text \<open>The state of a builder on which exactly the calls \<open>fs\<close> have been made, all of
  them counted and appended.\<close>

definition built :: "string option \<Rightarrow> frag list \<Rightarrow> CssCreator" where
  "built v fs =
     \<lparr>val = v, template = concat (map render fs),
      counterE = occurrences ''element'' fs, counterId = occurrences ''id'' fs,
      counterPe = occurrences ''pseudoElement'' fs, sortL = map kind_name fs,
      sequence = [''element'', ''id'', ''class'', ''attr'', ''pseudoClass'', ''pseudoElement'']\<rparr>"

definition has_sequence :: "CssCreator \<Rightarrow> bool" where
  "has_sequence c \<longleftrightarrow>
     sequence c = [''element'', ''id'', ''class'', ''attr'', ''pseudoClass'', ''pseudoElement'']"

text \<open>The counter that a call of the given kind increments (none for the other three).\<close>

fun counter :: "frag \<Rightarrow> CssCreator \<Rightarrow> nat" where
  "counter (CallElement v) c = counterE c"
| "counter (CallId v) c = counterId c"
| "counter (CallPseudoElement v) c = counterPe c"
| "counter f c = 0"

fun counted :: "frag \<Rightarrow> CssCreator \<Rightarrow> CssCreator" where
  "counted (CallElement v) c = c\<lparr>counterE := counterE c + 1\<rparr>"
| "counted (CallId v) c = c\<lparr>counterId := counterId c + 1\<rparr>"
| "counted (CallPseudoElement v) c = c\<lparr>counterPe := counterPe c + 1\<rparr>"
| "counted f c = c"

definition pushed :: "frag \<Rightarrow> CssCreator \<Rightarrow> CssCreator" where
  "pushed f c = c\<lparr>sortL := sortL c @ [kind_name f]\<rparr>"


text \<open>
  The global order check, in the words of the specification: the kind just recorded at
  the end of \<^verbatim>\<open>this.sort\<close> is compared with every fragment recorded before it, not
  only with the one immediately before.
\<close>

definition checkValid_global :: "string \<Rightarrow> CssCreator \<Rightarrow> error option" where
  "checkValid_global selector c =
     (if \<exists>prevSelector \<in> set (butlast (sortL c)).
           indexOf (sequence c) selector < indexOf (sequence c) prevSelector
      then Some (Error order_message) else None)"

text \<open>Any methods called one after the other on one instance, errors caught.\<close>

fun invoke_all :: "(CssCreator \<Rightarrow> outcome) list \<Rightarrow> ref \<Rightarrow> store \<Rightarrow> store" where
  "invoke_all [] r h = h"
| "invoke_all (m # ms) r h = invoke_all ms r (snd (invoke m r h))"

text \<open>A store holding three builders made by the entry points: \<^verbatim>\<open>element('div')\<close>,
  \<^verbatim>\<open>id('main')\<close> and \<^verbatim>\<open>class('box')\<close>, at the references 0, 1 and 2.\<close>

definition example_store :: store where
  "example_store =
     snd (facade (CallClass ''box'')
       (snd (facade (CallId ''main'') (snd (facade (CallElement ''div'') [])))))"

section \<open>Properties\<close>

subsection \<open>Single calls and whole chains\<close>

lemma indexOf_kind_name:
  "indexOf [''element'', ''id'', ''class'', ''attr'', ''pseudoClass'', ''pseudoElement''] (kind_name f)
     = int (rank_of f)"
  by (cases f) simp_all

lemma kind_name_rank: "kind_name f = kind_name g \<longleftrightarrow> rank_of f = rank_of g"
  by (cases f; cases g) simp_all

lemma messages_differ: "order_message \<noteq> duplicate_message"
  by (simp add: order_message_def duplicate_message_def)

lemmas method_defs =
  CssCreator_element_def CssCreator_id_def CssCreator_class_def CssCreator_attr_def
  CssCreator_pseudoClass_def CssCreator_pseudoElement_def

lemma call_unfold:
  "call f c =
     (case CssCreator_checkValid (kind_name f) (pushed f c) of
        Some e \<Rightarrow> Thrown e (pushed f c)
      | None \<Rightarrow>
         if at_most_once f \<and> 1 \<le> counter f c
         then Thrown DuplicateViolation (counted f (pushed f c))
         else Returned ((counted f (pushed f c))\<lparr>template := template c @ render f\<rparr>))"
  by (cases f) (auto simp add: method_defs pushed_def Let_def split: option.splits)

lemma checkValid_first:
  "sortL c = [] \<Longrightarrow> CssCreator_checkValid s (pushed f c) = None"
  by (simp add: CssCreator_checkValid_def pushed_def)

lemma checkValid_after:
  assumes "has_sequence c" and "sortL c = ks @ [kind_name g]"
  shows "CssCreator_checkValid (kind_name f) (pushed f c) =
           (if rank_of f < rank_of g then Some OrderViolation else None)"
  using assms
  by (simp add: CssCreator_checkValid_def has_sequence_def indexOf_kind_name nth_append pushed_def
      del: indexOf.simps)

lemma calls_append:
  "calls (fs @ gs) c =
     (case calls fs c of Returned c' \<Rightarrow> calls gs c' | Thrown e c' \<Rightarrow> Thrown e c')"
  by (induction fs arbitrary: c) (auto split: outcome.splits)

lemma occurrences_snoc:
  "occurrences k (fs @ [f]) = occurrences k fs + (if kind_name f = k then 1 else 0)"
  by (simp add: occurrences_def)

lemma counter_built: "at_most_once f \<Longrightarrow> counter f (built v fs) = occurrences (kind_name f) fs"
  by (cases f) (simp_all add: built_def)

lemma built_snoc:
  "(counted f (pushed f (built v fs)))\<lparr>template := template (built v fs) @ render f\<rparr>
     = built v (fs @ [f])"
  by (cases f) (simp_all add: built_def pushed_def occurrences_snoc)

lemma checkValid_built:
  "CssCreator_checkValid (kind_name f) (pushed f (built v fs)) =
     (if fs \<noteq> [] \<and> rank_of f < rank_of (last fs) then Some OrderViolation else None)"
proof (cases fs rule: rev_cases)
  case Nil
  then show ?thesis by (simp add: checkValid_first built_def)
next
  case (snoc gs g)
  have "has_sequence (built v fs)" by (simp add: has_sequence_def built_def)
  moreover have "sortL (built v fs) = map kind_name gs @ [kind_name g]"
    by (simp add: built_def snoc)
  ultimately show ?thesis using snoc by (simp add: checkValid_after)
qed

lemma call_built:
  "call f (built v fs) =
     (if fs \<noteq> [] \<and> rank_of f < rank_of (last fs)
      then Thrown OrderViolation (pushed f (built v fs))
      else if at_most_once f \<and> 1 \<le> occurrences (kind_name f) fs
      then Thrown DuplicateViolation (counted f (pushed f (built v fs)))
      else Returned (built v (fs @ [f])))"
  by (simp add: call_unfold checkValid_built built_snoc counter_built)


lemma sorted_snoc_last:
  "sorted (xs @ [y :: nat]) \<longleftrightarrow> sorted xs \<and> (xs \<noteq> [] \<longrightarrow> last xs \<le> y)"
proof (induction xs)
  case Nil
  show ?case by simp
next
  case (Cons x xs)
  then show ?case by (cases xs) (auto)
qed

lemma occurrences_le_snoc:
  "(occurrences ''element'' (fs @ [f]) \<le> 1 \<and> occurrences ''id'' (fs @ [f]) \<le> 1 \<and>
    occurrences ''pseudoElement'' (fs @ [f]) \<le> 1) \<longleftrightarrow>
   (occurrences ''element'' fs \<le> 1 \<and> occurrences ''id'' fs \<le> 1 \<and>
    occurrences ''pseudoElement'' fs \<le> 1 \<and>
    (at_most_once f \<longrightarrow> occurrences (kind_name f) fs = 0))"
  by (cases f) (auto simp add: occurrences_snoc)

lemma valid_chain_snoc:
  "valid_chain (fs @ [f]) \<longleftrightarrow>
     valid_chain fs \<and> (fs \<noteq> [] \<longrightarrow> rank_of (last fs) \<le> rank_of f) \<and>
     (at_most_once f \<longrightarrow> occurrences (kind_name f) fs = 0)"
  using occurrences_le_snoc [of fs f] sorted_snoc_last [of "map rank_of fs" "rank_of f"]
  by (auto simp add: valid_chain_def last_map)

lemma occurrences_Nil: "occurrences k [] = 0"
  by (simp add: occurrences_def)

lemma valid_chain_Nil: "valid_chain []"
  by (simp add: valid_chain_def occurrences_def)

lemma calls_snoc:
  "calls (fs @ [f]) c =
     (case calls fs c of Returned c' \<Rightarrow> call f c' | Thrown e c' \<Rightarrow> Thrown e c')"
  by (simp add: calls_append split: outcome.splits)

lemma calls_valid: "valid_chain fs \<Longrightarrow> calls fs (built v []) = Returned (built v fs)"
proof (induction fs rule: rev_induct)
  case Nil
  show ?case by simp
next
  case (snoc f fs)
  from snoc.prems have v: "valid_chain fs"
    and r: "fs \<noteq> [] \<longrightarrow> rank_of (last fs) \<le> rank_of f"
    and o: "at_most_once f \<longrightarrow> occurrences (kind_name f) fs = 0"
    by (simp_all add: valid_chain_snoc)
  from r o have "call f (built v fs) = Returned (built v (fs @ [f]))"
    by (auto simp add: call_built)
  with snoc.IH [OF v] show ?case
    by (simp add: calls_snoc)
qed

lemma calls_Returned:
  "calls fs (built v []) = Returned c \<Longrightarrow> valid_chain fs \<and> c = built v fs"
proof (induction fs arbitrary: c rule: rev_induct)
  case Nil
  then show ?case by (simp add: valid_chain_Nil)
next
  case (snoc f fs)
  from snoc.prems obtain c' where c': "calls fs (built v []) = Returned c'"
    and f: "call f c' = Returned c"
    by (auto simp add: calls_snoc split: outcome.splits)
  from snoc.IH [OF c'] have v: "valid_chain fs" and b: "c' = built v fs" by simp_all
  from f b show ?case
    by (auto simp add: call_built valid_chain_snoc v split: if_splits)
qed

lemma constructor_built: "CssCreator_constructor v = built v []"
  by (simp add: CssCreator_constructor_def built_def occurrences_def)

lemma run_chain_calls:
  "r < length h \<Longrightarrow>
   run_chain fs (Inr r, h) =
     (case calls fs (h ! r) of
        Returned c \<Rightarrow> (Inr r, h[r := c])
      | Thrown e c \<Rightarrow> (Inl e, h[r := c]))"
proof (induction fs arbitrary: h)
  case Nil
  then show ?case by simp
next
  case (Cons f fs)
  show ?case
  proof (cases "call f (h ! r)")
    case (Returned c)
    with Cons.prems Cons.IH [of "h[r := c]"] show ?thesis
      by (simp add: invoke_def split: outcome.splits)
  next
    case (Thrown e c)
    then show ?thesis by (cases fs) (simp_all add: invoke_def)
  qed
qed

lemma facade_call:
  "facade f h =
     (case call f (CssCreator_constructor None) of
        Returned c \<Rightarrow> (Inr (length h), h @ [c])
      | Thrown e c \<Rightarrow> (Inl e, h @ [c]))"
  by (cases f)
    (simp_all add: cssSelectorBuilder_element_def cssSelectorBuilder_id_def
      cssSelectorBuilder_class_def cssSelectorBuilder_attr_def
      cssSelectorBuilder_pseudoClass_def cssSelectorBuilder_pseudoElement_def
      new_CssCreator_def invoke_def split: outcome.splits)

lemma facade_eq: "facade f h = (Inr (length h), h @ [built None [f]])"
  by (simp add: facade_call constructor_built call_built occurrences_Nil del: call.simps)

lemma selector_eq:
  "run_chain fs (facade f h) =
     (case calls (f # fs) (built None []) of
        Returned c \<Rightarrow> (Inr (length h), h @ [c])
      | Thrown e c \<Rightarrow> (Inl e, h @ [c]))"
  by (simp add: facade_eq run_chain_calls call_built occurrences_Nil split: outcome.splits)

subsection \<open>Rectangle\<close>

text \<open>
  Claim C8. For all numbers \<open>w\<close> and \<open>h\<close>, the object made by
  \<^verbatim>\<open>new Rectangle(w, h)\<close> has \<open>width = w\<close> and \<open>height = h\<close>, and its
  \<^verbatim>\<open>getArea()\<close> returns \<open>w * h\<close>, also after the fields have been assigned other
  values, since the method reads the constructor's parameters; for 10 and 20 it returns
  200. No range check is made: the equations hold for every \<open>w\<close> and \<open>h\<close>.
\<close>

theorem Rectangle_area:
  "width (Rectangle w h) = w \<and> height (Rectangle w h) = h \<and>
   getArea (Rectangle w h) = w * h \<and>
   getArea ((Rectangle w h)\<lparr>width := w', height := h'\<rparr>) = w * h \<and>
   getArea (Rectangle (10 :: int) 20) = 200"
  by (simp add: Rectangle_def getArea_def)


subsection \<open>Valid chains\<close>

lemma valid_chain_prefix: "valid_chain (fs @ gs) \<Longrightarrow> valid_chain fs"
  by (auto simp add: valid_chain_def occurrences_def sorted_append)

text \<open>
  Claim C1. A chain started by a facade entry point whose kind ranks never decrease and
  in which element, id and pseudoElement occur at most once each: every call of the
  chain succeeds and returns the one builder the entry point created (the reference
  \<open>length h\<close>, fresh in the store \<open>h\<close>), and after every call \<^verbatim>\<open>stringify()\<close>
  is the concatenation, in call order, of the rendered forms of the fragments so far.
\<close>

theorem valid_chain_succeeds:
  assumes "valid_chain (f # fs)"
  shows "\<forall>k \<le> length fs.
           fst (run_chain (take k fs) (facade f h)) = Inr (length h) \<and>
           CssCreator_stringify (snd (run_chain (take k fs) (facade f h)) ! length h)
             = concat (map render (f # take k fs))"
proof (intro allI impI)
  fix k assume "k \<le> length fs"
  have "valid_chain ((f # take k fs) @ drop k fs)"
    using assms by simp
  then have "valid_chain (f # take k fs)"
    by (rule valid_chain_prefix)
  then have "calls (f # take k fs) (built None []) = Returned (built None (f # take k fs))"
    by (rule calls_valid)
  then have "run_chain (take k fs) (facade f h)
               = (Inr (length h), h @ [built None (f # take k fs)])"
    by (simp only: selector_eq outcome.case)
  then show "fst (run_chain (take k fs) (facade f h)) = Inr (length h) \<and>
      CssCreator_stringify (snd (run_chain (take k fs) (facade f h)) ! length h)
        = concat (map render (f # take k fs))"
    by (simp add: CssCreator_stringify_def built_def)
qed

theorem valid_chain_succeeds_witness:
  "valid_chain [CallId ''main'', CallClass ''container'', CallClass ''editable''] \<and>
   fst (run_chain [CallClass ''container'', CallClass ''editable''] (facade (CallId ''main'') []))
     = Inr 0 \<and>
   CssCreator_stringify
     (snd (run_chain [CallClass ''container'', CallClass ''editable'']
            (facade (CallId ''main'') [])) ! 0)
     = ''#main.container.editable''"
proof -
  have v: "valid_chain [CallId ''main'', CallClass ''container'', CallClass ''editable'']"
    by (simp add: valid_chain_def occurrences_def)
  from valid_chain_succeeds [OF v, of "[]", rule_format, of 2] v
  show ?thesis by simp
qed

subsection \<open>What one call does to the receiver\<close>

lemma checkValid_Some: "CssCreator_checkValid s c = Some e \<Longrightarrow> e = OrderViolation"
  by (auto simp add: CssCreator_checkValid_def Let_def split: if_splits)

lemma sortL_counted [simp]: "sortL (counted f c) = sortL c"
  by (cases f) simp_all

lemma template_counted [simp]: "template (counted f c) = template c"
  by (cases f) simp_all

lemma sequence_counted [simp]: "sequence (counted f c) = sequence c"
  by (cases f) simp_all

lemma sortL_call: "sortL (state_of (call f c)) = sortL c @ [kind_name f]"
  by (simp add: call_unfold pushed_def split: option.splits)

lemma sequence_call: "sequence (state_of (call f c)) = sequence c"
  by (simp add: call_unfold pushed_def split: option.splits)

lemma has_sequence_call: "has_sequence c \<Longrightarrow> has_sequence (state_of (call f c))"
  by (simp add: has_sequence_def sequence_call)

lemma has_sequence_constructor: "has_sequence (CssCreator_constructor v)"
  by (simp add: has_sequence_def CssCreator_constructor_def)

lemma has_sequence_combine:
  "has_sequence c \<Longrightarrow> has_sequence (state_of (CssCreator_combine s1 k s2 c))"
  by (simp add: has_sequence_def CssCreator_combine_def)

text \<open>
  Claim C2. On every builder (any state with the constructor's \<^verbatim>\<open>sequence\<close>), when a
  fragment call \<open>f1\<close> is followed by a call \<open>f2\<close> of strictly lower rank, the
  second call throws the error with the order message, whether the first call returned
  or threw. The check comes before the counter and append steps: the state the second
  call leaves differs from the one it found only by the kind recorded in
  \<^verbatim>\<open>this.sort\<close>.
\<close>

theorem lower_rank_raises_OrderViolation:
  assumes "has_sequence c" and "rank_of f2 < rank_of f1"
  shows "call f2 (state_of (call f1 c)) =
           Thrown OrderViolation
             ((state_of (call f1 c))\<lparr>sortL := sortL (state_of (call f1 c)) @ [kind_name f2]\<rparr>)"
proof -
  let ?c1 = "state_of (call f1 c)"
  have "has_sequence ?c1" using assms(1) by (rule has_sequence_call)
  moreover have "sortL ?c1 = sortL c @ [kind_name f1]" by (rule sortL_call)
  ultimately have "CssCreator_checkValid (kind_name f2) (pushed f2 ?c1) = Some OrderViolation"
    using assms(2) by (simp add: checkValid_after)
  then show ?thesis by (simp add: call_unfold pushed_def)
qed

theorem lower_rank_raises_OrderViolation_witness:
  "has_sequence (CssCreator_constructor None) \<and>
   rank_of (CallElement ''div'') < rank_of (CallClass ''box'') \<and>
   call (CallElement ''div'') (state_of (call (CallClass ''box'') (CssCreator_constructor None)))
     = Thrown (Error ''Selector parts should be arranged in the following order: element, id, class, attribute, pseudo-class, pseudo-element'')
         \<lparr>val = None, template = ''.box'', counterE = 0, counterId = 0, counterPe = 0,
          sortL = [''class'', ''element''],
          sequence = [''element'', ''id'', ''class'', ''attr'', ''pseudoClass'', ''pseudoElement'']\<rparr>"
proof -
  have s: "has_sequence (CssCreator_constructor None)" by (rule has_sequence_constructor)
  have r: "rank_of (CallElement ''div'') < rank_of (CallClass ''box'')" by simp
  have st: "state_of (CssCreator_class ''box'' (CssCreator_constructor None)) =
        \<lparr>val = None, template = ''.box'', counterE = 0, counterId = 0, counterPe = 0,
          sortL = [''class''],
          sequence = [''element'', ''id'', ''class'', ''attr'', ''pseudoClass'', ''pseudoElement'']\<rparr>"
    by (simp add: CssCreator_class_def CssCreator_constructor_def CssCreator_checkValid_def)
  from lower_rank_raises_OrderViolation [OF s r] s r
  show ?thesis by (simp add: st order_message_def)
qed

subsection \<open>Failing calls\<close>

lemma call_Thrown:
  assumes "call f c = Thrown e c'"
  shows "template c' = template c \<and> sortL c' = sortL c @ [kind_name f] \<and>
         (e = OrderViolation \<and> c' = pushed f c \<or>
          e = DuplicateViolation \<and> at_most_once f \<and> 1 \<le> counter f c \<and> c' = counted f (pushed f c))"
  using assms
  by (auto simp add: call_unfold pushed_def split: option.splits if_splits dest: checkValid_Some)

lemma counter_counted: "at_most_once f \<Longrightarrow> counter f (counted f c) = counter f c + 1"
  by (cases f) simp_all

lemma counter_pushed [simp]: "counter g (pushed f c) = counter g c"
  by (cases g) (simp_all add: pushed_def)

lemma invoke_at:
  "r < length h \<Longrightarrow>
   invoke m r h = (res, h') \<Longrightarrow>
   h' ! r = state_of (m (h ! r)) \<and> length h' = length h \<and>
   (case m (h ! r) of Returned c \<Rightarrow> res = Inr r | Thrown e c \<Rightarrow> res = Inl e)"
  by (auto simp add: invoke_def split: outcome.splits)

text \<open>
  Claim C5. When a fragment call on the instance \<open>r\<close> throws, the error is one of the
  two violations and \<^verbatim>\<open>stringify()\<close> on the instance returns the text it returned
  before the call. Nothing is rolled back: the kind stays recorded in
  \<^verbatim>\<open>this.sort\<close>, and after a duplicate violation the counter stays incremented
  (an order violation throws before any counter is touched).
\<close>

theorem failing_call_keeps_text:
  assumes "r < length h" and "invoke (call f) r h = (Inl e, h')"
  shows "CssCreator_stringify (h' ! r) = CssCreator_stringify (h ! r) \<and>
         (e = OrderViolation \<or> e = DuplicateViolation) \<and>
         sortL (h' ! r) = sortL (h ! r) @ [kind_name f] \<and>
         (e = DuplicateViolation \<longrightarrow> counter f (h' ! r) = counter f (h ! r) + 1) \<and>
         (e = OrderViolation \<longrightarrow> (\<forall>g. counter g (h' ! r) = counter g (h ! r)))"
proof -
  from invoke_at [OF assms] obtain c' where t: "call f (h ! r) = Thrown e c'" and c': "h' ! r = c'"
    by (cases "call f (h ! r)") auto
  from call_Thrown [OF t] messages_differ show ?thesis
    by (auto simp add: c' CssCreator_stringify_def counter_counted)
qed

lemmas facade_defs =
  cssSelectorBuilder_element_def cssSelectorBuilder_id_def cssSelectorBuilder_class_def
  cssSelectorBuilder_attr_def cssSelectorBuilder_pseudoClass_def
  cssSelectorBuilder_pseudoElement_def cssSelectorBuilder_combine_def
  new_CssCreator_def invoke_def CssCreator_constructor_def

lemmas eval_defs =
  facade_defs method_defs CssCreator_checkValid_def CssCreator_combine_def
  CssCreator_stringify_def

theorem failing_call_keeps_text_witness:
  "(0::nat) < length (snd (facade (CallId ''a'') [])) \<and>
   fst (invoke (call (CallId ''b'')) 0 (snd (facade (CallId ''a'') []))) = Inl DuplicateViolation \<and>
   CssCreator_stringify (snd (invoke (call (CallId ''b'')) 0 (snd (facade (CallId ''a'') []))) ! 0)
     = ''#a'' \<and>
   sortL (snd (invoke (call (CallId ''b'')) 0 (snd (facade (CallId ''a'') []))) ! 0)
     = [''id'', ''id''] \<and>
   counterId (snd (invoke (call (CallId ''b'')) 0 (snd (facade (CallId ''a'') []))) ! 0) = 2"
proof -
  let ?h = "snd (facade (CallId ''a'') [])"
  have l: "(0::nat) < length ?h" by (simp add: eval_defs)
  have e: "fst (invoke (call (CallId ''b'')) 0 ?h) = Inl DuplicateViolation"
    by (simp add: eval_defs)
  then have i: "invoke (call (CallId ''b'')) 0 ?h =
             (Inl DuplicateViolation, snd (invoke (call (CallId ''b'')) 0 ?h))"
    by (simp add: prod_eq_iff)
  have b: "CssCreator_stringify (?h ! 0) = ''#a'' \<and> sortL (?h ! 0) = [''id''] \<and> counterId (?h ! 0) = 1"
    by (simp add: eval_defs)
  from failing_call_keeps_text [OF l i] l e b
  show ?thesis by simp
qed

subsection \<open>After a failure\<close>

text \<open>
  Claim C6 says that after a failed fragment call every later fragment call on the same
  instance fails too. The class keeps no record of a failure, so this does not hold:
  after \<^verbatim>\<open>id('a').id('b')\<close> has thrown the duplicate violation,
  \<^verbatim>\<open>class('c')\<close> on the same instance returns it, with text \<^verbatim>\<open>#a.c\<close>; and
  after \<^verbatim>\<open>class('a').element('b')\<close> has thrown the order violation,
  \<^verbatim>\<open>element('c')\<close> on the same instance returns it, with text \<^verbatim>\<open>.ac\<close>.
\<close>

theorem failed_instance_recovers:
  "fst (facade (CallId ''a'') []) = Inr 0 \<and>
   fst (invoke (call (CallId ''b'')) 0 (snd (facade (CallId ''a'') []))) = Inl DuplicateViolation \<and>
   fst (invoke (call (CallClass ''c'')) 0
         (snd (invoke (call (CallId ''b'')) 0 (snd (facade (CallId ''a'') []))))) = Inr 0 \<and>
   CssCreator_stringify
     (snd (invoke (call (CallClass ''c'')) 0
            (snd (invoke (call (CallId ''b'')) 0 (snd (facade (CallId ''a'') []))))) ! 0) = ''#a.c'' \<and>
   fst (facade (CallClass ''a'') []) = Inr 0 \<and>
   fst (invoke (call (CallElement ''b'')) 0 (snd (facade (CallClass ''a'') []))) = Inl OrderViolation \<and>
   fst (invoke (call (CallElement ''c'')) 0
         (snd (invoke (call (CallElement ''b'')) 0 (snd (facade (CallClass ''a'') []))))) = Inr 0 \<and>
   CssCreator_stringify
     (snd (invoke (call (CallElement ''c'')) 0
            (snd (invoke (call (CallElement ''b'')) 0 (snd (facade (CallClass ''a'') []))))) ! 0) = ''.ac''"
  by (simp add: eval_defs)

lemma counter_kind: "kind_name g = kind_name f \<Longrightarrow> counter g = counter f"
  by (cases f; cases g) (simp_all add: fun_eq_iff)

lemma at_most_once_kind: "kind_name g = kind_name f \<Longrightarrow> at_most_once g = at_most_once f"
  by (cases f; cases g) simp_all

lemma counter_counted_mono: "counter g c \<le> counter g (counted f c)"
  by (cases f; cases g) simp_all

lemma counter_call_mono: "counter g c \<le> counter g (state_of (call f c))"
proof -
  have "counter g c \<le> counter g (counted f (pushed f c))"
    using counter_counted_mono [of g "pushed f c" f] by simp
  moreover have "counter g ((counted f (pushed f c))\<lparr>template := t\<rparr>) = counter g (counted f (pushed f c))" for t
    by (cases g) simp_all
  ultimately show ?thesis
    by (simp add: call_unfold split: option.splits)
qed

lemma counter_calls_caught_mono: "counter g c \<le> counter g (calls_caught fs c)"
proof (induction fs arbitrary: c)
  case Nil
  show ?case by simp
next
  case (Cons f fs)
  have "counter g c \<le> counter g (state_of (call f c))" by (rule counter_call_mono)
  also have "\<dots> \<le> counter g (calls_caught fs (state_of (call f c)))" by (rule Cons.IH)
  finally show ?case by simp
qed

lemma call_counted_throws:
  "at_most_once g \<Longrightarrow> 1 \<le> counter g c \<Longrightarrow> is_Thrown (call g c)"
  by (simp add: call_unfold split: option.splits)

lemma invoke_length: "length (snd (invoke m r h)) = length h"
  by (simp add: invoke_def split: outcome.splits)

lemma invoke_nth:
  "r < length h \<Longrightarrow> snd (invoke m r h) ! a = (if a = r then state_of (m (h ! r)) else h ! a)"
  by (simp add: invoke_def split: outcome.splits)

lemma invoke_fst:
  "fst (invoke m r h) = (case m (h ! r) of Returned c \<Rightarrow> Inr r | Thrown e c \<Rightarrow> Inl e)"
  by (simp add: invoke_def split: outcome.splits)

lemma invoke_all_length: "length (invoke_all ms r h) = length h"
  by (induction ms arbitrary: h) (simp_all add: invoke_length)

lemma invoke_all_calls:
  "r < length h \<Longrightarrow> invoke_all (map call fs) r h ! r = calls_caught fs (h ! r)"
proof (induction fs arbitrary: h)
  case Nil
  show ?case by simp
next
  case (Cons f fs)
  from Cons.prems have "r < length (snd (invoke (call f) r h))" by (simp add: invoke_length)
  from Cons.IH [OF this] Cons.prems show ?case by (simp add: invoke_nth)
qed

text \<open>
  Claim C6, as amended. What is permanent is the counter: once a call of kind element,
  id or pseudoElement has thrown the duplicate violation on an instance, every later
  call of that same kind on that instance throws as well, whatever fragment calls
  \<open>fs\<close> (returning or throwing, the errors caught) were made on it in between.
\<close>

theorem duplicate_violation_persists:
  assumes "r < length h" and "invoke (call f) r h = (Inl DuplicateViolation, h')"
    and "kind_name g = kind_name f"
  shows "\<exists>e. fst (invoke (call g) r (invoke_all (map call fs) r h')) = Inl e"
proof -
  from invoke_at [OF assms(1,2)] obtain c' where t: "call f (h ! r) = Thrown DuplicateViolation c'"
    and c': "h' ! r = c'" and l: "length h' = length h"
    by (cases "call f (h ! r)") auto
  from call_Thrown [OF t] messages_differ have a: "at_most_once f" and "c' = counted f (pushed f (h ! r))"
    by auto
  then have "1 \<le> counter f c'" by (simp add: counter_counted)
  also have "\<dots> \<le> counter f (calls_caught fs c')" by (rule counter_calls_caught_mono)
  finally have "1 \<le> counter g (calls_caught fs c')" by (simp add: counter_kind [OF assms(3)])
  moreover have "at_most_once g" using a by (simp add: at_most_once_kind [OF assms(3)])
  ultimately have "is_Thrown (call g (calls_caught fs c'))" by (rule call_counted_throws [rotated])
  moreover have "invoke_all (map call fs) r h' ! r = calls_caught fs c'"
    using assms(1) l c' by (simp add: invoke_all_calls)
  ultimately show ?thesis
    by (cases "call g (calls_caught fs c')") (simp_all add: invoke_fst)
qed

theorem duplicate_violation_persists_witness:
  "(0::nat) < length (snd (facade (CallId ''a'') [])) \<and>
   fst (invoke (call (CallId ''b'')) 0 (snd (facade (CallId ''a'') []))) = Inl DuplicateViolation \<and>
   kind_name (CallId ''d'') = kind_name (CallId ''b'') \<and>
   (\<exists>e. fst (invoke (call (CallId ''d'')) 0
           (invoke_all (map call [CallClass ''c''])  0
             (snd (invoke (call (CallId ''b'')) 0 (snd (facade (CallId ''a'') [])))))) = Inl e)"
proof -
  let ?h = "snd (facade (CallId ''a'') [])"
  have l: "(0::nat) < length ?h" by (simp add: eval_defs)
  have e: "fst (invoke (call (CallId ''b'')) 0 ?h) = Inl DuplicateViolation"
    by (simp add: eval_defs)
  then have i: "invoke (call (CallId ''b'')) 0 ?h =
             (Inl DuplicateViolation, snd (invoke (call (CallId ''b'')) 0 ?h))"
    by (simp add: prod_eq_iff)
  have k: "kind_name (CallId ''d'') = kind_name (CallId ''b'')" by simp
  from duplicate_violation_persists [OF l i k, of "[CallClass ''c'']"] l e
  show ?thesis by simp
qed

subsection \<open>The order check on chains without errors\<close>

lemma chain_Returned:
  assumes "run_chain fs (facade f h) = (Inr r, h')"
  shows "r = length h \<and> h' = h @ [built None (f # fs)] \<and> valid_chain (f # fs)"
proof (cases "calls (f # fs) (built None [])")
  case (Returned c)
  from calls_Returned [OF Returned] assms show ?thesis
    by (simp only: selector_eq Returned outcome.case) simp
next
  case (Thrown e c)
  with assms show ?thesis by (simp only: selector_eq Thrown outcome.case) simp
qed

lemma sorted_le_last: "sorted (xs :: nat list) \<Longrightarrow> x \<in> set xs \<Longrightarrow> x \<le> last xs"
  by (induction xs) (auto)

lemma checkValid_global_built:
  assumes "sorted (map rank_of fs)"
  shows "checkValid_global (kind_name g) (pushed g (built v fs)) =
           (if fs \<noteq> [] \<and> rank_of g < rank_of (last fs) then Some OrderViolation else None)"
proof -
  have "(\<exists>p \<in> set fs. rank_of g < rank_of p) \<longleftrightarrow> fs \<noteq> [] \<and> rank_of g < rank_of (last fs)"
  proof
    assume "\<exists>p \<in> set fs. rank_of g < rank_of p"
    then obtain p where p: "p \<in> set fs" and lt: "rank_of g < rank_of p" by blast
    from p have "rank_of p \<in> set (map rank_of fs)" by simp
    from sorted_le_last [OF assms this] p have "rank_of p \<le> rank_of (last fs)"
      by (cases "fs = []") (simp_all add: last_map)
    with lt p show "fs \<noteq> [] \<and> rank_of g < rank_of (last fs)" by auto
  next
    assume "fs \<noteq> [] \<and> rank_of g < rank_of (last fs)"
    then show "\<exists>p \<in> set fs. rank_of g < rank_of p" by (auto intro: bexI [of _ "last fs"])
  qed
  then show ?thesis
    by (simp add: checkValid_global_def pushed_def built_def indexOf_kind_name del: indexOf.simps)
qed

text \<open>
  Claim C7. On a builder whose calls, from the entry point on, all returned, the kinds
  recorded in \<^verbatim>\<open>this.sort\<close> are those of the calls in call order and their ranks
  never decrease over the whole sequence; and for a further call of any kind the check
  of the source, against the immediately preceding fragment only, gives the verdict of
  the global check against every recorded fragment.
\<close>

theorem local_check_is_global:
  assumes "run_chain fs (facade f h) = (Inr r, h')"
  shows "sortL (h' ! r) = map kind_name (f # fs) \<and>
         sorted (map rank_of (f # fs)) \<and>
         (\<forall>g. CssCreator_checkValid (kind_name g) ((h' ! r)\<lparr>sortL := sortL (h' ! r) @ [kind_name g]\<rparr>)
               = checkValid_global (kind_name g) ((h' ! r)\<lparr>sortL := sortL (h' ! r) @ [kind_name g]\<rparr>))"
proof -
  from chain_Returned [OF assms] have r: "h' ! r = built None (f # fs)"
    and v: "valid_chain (f # fs)" by simp_all
  from v have s: "sorted (map rank_of (f # fs))" by (simp add: valid_chain_def)
  have "CssCreator_checkValid (kind_name g) (pushed g (built None (f # fs)))
          = checkValid_global (kind_name g) (pushed g (built None (f # fs)))" for g
    by (simp only: checkValid_built checkValid_global_built [OF s])
  then show ?thesis using s by (simp add: r pushed_def) (simp add: built_def)
qed

theorem local_check_is_global_witness:
  "run_chain [CallId ''b'', CallClass ''c''] (facade (CallElement ''a'') []) =
     (Inr 0, [\<lparr>val = None, template = ''a#b.c'', counterE = 1, counterId = 1, counterPe = 0,
              sortL = [''element'', ''id'', ''class''],
              sequence = [''element'', ''id'', ''class'', ''attr'', ''pseudoClass'', ''pseudoElement'']\<rparr>]) \<and>
   sorted (map rank_of [CallElement ''a'', CallId ''b'', CallClass ''c'']) \<and>
   CssCreator_checkValid ''id''
     \<lparr>val = None, template = ''a#b.c'', counterE = 1, counterId = 1, counterPe = 0,
      sortL = [''element'', ''id'', ''class'', ''id''],
      sequence = [''element'', ''id'', ''class'', ''attr'', ''pseudoClass'', ''pseudoElement'']\<rparr>
   = checkValid_global ''id''
     \<lparr>val = None, template = ''a#b.c'', counterE = 1, counterId = 1, counterPe = 0,
      sortL = [''element'', ''id'', ''class'', ''id''],
      sequence = [''element'', ''id'', ''class'', ''attr'', ''pseudoClass'', ''pseudoElement'']\<rparr>"
proof -
  have c: "run_chain [CallId ''b'', CallClass ''c''] (facade (CallElement ''a'') []) =
     (Inr 0, [\<lparr>val = None, template = ''a#b.c'', counterE = 1, counterId = 1, counterPe = 0,
              sortL = [''element'', ''id'', ''class''],
              sequence = [''element'', ''id'', ''class'', ''attr'', ''pseudoClass'', ''pseudoElement'']\<rparr>])"
    by (simp add: eval_defs)
  from local_check_is_global [OF c, THEN conjunct2, THEN conjunct2, rule_format, of "CallId ''x''"]
    local_check_is_global [OF c, THEN conjunct2, THEN conjunct1] c
  show ?thesis by simp
qed

subsection \<open>Repeated kinds\<close>

text \<open>
  Claim C3 says that on any chain a second call to element throws the duplicate
  violation. The order check comes first: in \<^verbatim>\<open>element('a').id('b').element('c')\<close>
  the second call to element follows an id, and throws the order violation instead.
\<close>

theorem second_element_after_id_is_order_violation:
  "fst (run_chain [CallId ''b''] (facade (CallElement ''a'') [])) = Inr 0 \<and>
   fst (run_chain [CallId ''b'', CallElement ''c''] (facade (CallElement ''a'') []))
     = Inl OrderViolation \<and>
   fst (run_chain [CallId ''b'', CallElement ''c''] (facade (CallElement ''a'') []))
     \<noteq> Inl DuplicateViolation"
  by (simp add: eval_defs) (simp add: order_message_def duplicate_message_def)

lemma calls_from_built:
  assumes "valid_chain (fs @ gs)"
  shows "calls gs (built v fs) = Returned (built v (fs @ gs))"
proof -
  from assms have "valid_chain fs" by (rule valid_chain_prefix)
  then have "calls fs (built v []) = Returned (built v fs)" by (rule calls_valid)
  moreover from assms have "calls (fs @ gs) (built v []) = Returned (built v (fs @ gs))"
    by (rule calls_valid)
  ultimately show ?thesis by (simp add: calls_append)
qed

lemma occurrences_append: "occurrences k (fs @ gs) = occurrences k fs + occurrences k gs"
  by (simp add: occurrences_def)

lemma occurrences_other:
  "\<forall>x \<in> set gs. kind_name x \<noteq> k \<Longrightarrow> occurrences k gs = 0"
  by (simp add: occurrences_def)

lemma not_at_most_once: "\<not> at_most_once g \<Longrightarrow>
   kind_name g \<noteq> ''element'' \<and> kind_name g \<noteq> ''id'' \<and> kind_name g \<noteq> ''pseudoElement''"
  by (cases g) simp_all

lemma sorted_constant: "\<forall>x \<in> set xs. x = (k::nat) \<Longrightarrow> sorted xs"
  by (induction xs) auto

lemma valid_chain_repeat:
  assumes v: "valid_chain fs" and n: "fs \<noteq> []" and r: "rank_of (last fs) \<le> rank_of g"
    and a: "\<not> at_most_once g" and k: "\<forall>x \<in> set gs. kind_name x = kind_name g"
  shows "valid_chain (fs @ gs)"
proof -
  from v have s: "sorted (map rank_of fs)" by (simp add: valid_chain_def)
  from k have rk: "\<forall>x \<in> set gs. rank_of x = rank_of g" by (simp add: kind_name_rank)
  then have "sorted (map rank_of gs)" by (intro sorted_constant [of _ "rank_of g"]) simp
  moreover have "\<forall>x \<in> set fs. \<forall>y \<in> set gs. rank_of x \<le> rank_of y"
  proof (intro ballI)
    fix x y assume x: "x \<in> set fs" and y: "y \<in> set gs"
    from x have "rank_of x \<in> set (map rank_of fs)" by simp
    from sorted_le_last [OF s this] n have "rank_of x \<le> rank_of (last fs)" by (simp add: last_map)
    with r rk y show "rank_of x \<le> rank_of y" by simp
  qed
  ultimately have "sorted (map rank_of (fs @ gs))" using s by (simp add: sorted_append)
  moreover from not_at_most_once [OF a] k
  have "occurrences ''element'' gs = 0 \<and> occurrences ''id'' gs = 0 \<and> occurrences ''pseudoElement'' gs = 0"
    by (simp add: occurrences_other)
  ultimately show ?thesis using v by (simp add: valid_chain_def occurrences_append)
qed

text \<open>
  Claim C3, as amended. After a chain from an entry point whose calls all returned: a
  further call to element, id or pseudoElement, when that kind already occurs in the
  chain, throws the duplicate violation with its message provided the fragment
  immediately before does not rank above the called kind, and the order violation
  otherwise; and calls to class, attr or pseudoClass, repeated any number of times
  directly after a fragment that does not rank above that kind, all return the builder.
\<close>

theorem repeated_kind:
  assumes "run_chain fs (facade f h) = (Inr r, h')"
  shows "(at_most_once g \<and> 1 \<le> occurrences (kind_name g) (f # fs) \<longrightarrow>
            fst (invoke (call g) r h') =
              (if rank_of g < rank_of (last (f # fs)) then Inl OrderViolation
               else Inl DuplicateViolation)) \<and>
         (\<not> at_most_once g \<and> rank_of (last (f # fs)) \<le> rank_of g \<longrightarrow>
            (\<forall>gs. (\<forall>x \<in> set gs. kind_name x = kind_name g) \<longrightarrow>
                  fst (run_chain gs (Inr r, h')) = Inr r))"
proof -
  from chain_Returned [OF assms] have r: "r = length h" and h': "h' = h @ [built None (f # fs)]"
    and v: "valid_chain (f # fs)" by simp_all
  have at: "h' ! r = built None (f # fs)" and lt: "r < length h'" by (simp_all add: r h')
  have "fst (invoke (call g) r h') =
          (if rank_of g < rank_of (last (f # fs)) then Inl OrderViolation
           else Inl DuplicateViolation)"
    if "at_most_once g" and "1 \<le> occurrences (kind_name g) (f # fs)"
    using that by (simp add: invoke_fst at call_built del: call.simps)
  moreover have "fst (run_chain gs (Inr r, h')) = Inr r"
    if "\<not> at_most_once g" and "rank_of (last (f # fs)) \<le> rank_of g"
      and "\<forall>x \<in> set gs. kind_name x = kind_name g" for gs
  proof -
    have "valid_chain ((f # fs) @ gs)"
      using valid_chain_repeat [OF v _ that(2,1,3)] by simp
    then have "calls gs (built None (f # fs)) = Returned (built None ((f # fs) @ gs))"
      by (rule calls_from_built)
    then show ?thesis by (simp add: run_chain_calls [OF lt] at)
  qed
  ultimately show ?thesis by blast
qed

theorem repeated_kind_witness:
  "fst (run_chain [] (facade (CallElement ''table'') [])) = Inr 0 \<and>
   at_most_once (CallElement ''div'') \<and>
   1 \<le> occurrences (kind_name (CallElement ''div'')) [CallElement ''table''] \<and>
   fst (invoke (call (CallElement ''div'')) 0 (snd (facade (CallElement ''table'') [])))
     = Inl (Error ''Element, id and pseudo-element should not occur more then one time inside the selector'') \<and>
   \<not> at_most_once (CallClass ''x'') \<and>
   rank_of (last [CallElement ''table'']) \<le> rank_of (CallClass ''x'') \<and>
   kind_name (CallClass ''y'') = kind_name (CallClass ''x'') \<and>
   kind_name (CallClass ''z'') = kind_name (CallClass ''x'') \<and>
   fst (run_chain [CallClass ''y'', CallClass ''z''] (Inr 0, snd (facade (CallElement ''table'') [])))
     = Inr 0"
proof -
  let ?h = "snd (facade (CallElement ''table'') [])"
  have e: "fst (run_chain [] (facade (CallElement ''table'') [])) = Inr 0"
    by (simp add: eval_defs)
  then have c: "run_chain [] (facade (CallElement ''table'') []) = (Inr 0, ?h)"
    by (simp add: prod_eq_iff)
  have a: "at_most_once (CallElement ''div'') \<and>
    1 \<le> occurrences (kind_name (CallElement ''div'')) [CallElement ''table'']"
    by (simp add: occurrences_def)
  have b: "\<not> at_most_once (CallClass ''x'') \<and>
    rank_of (last [CallElement ''table'']) \<le> rank_of (CallClass ''x'')"
    by simp
  have k: "\<forall>x \<in> set [CallClass ''y'', CallClass ''z'']. kind_name x = kind_name (CallClass ''x'')"
    by simp
  from repeated_kind [OF c, of "CallElement ''div''", THEN conjunct1, rule_format, OF a]
  have 1: "fst (invoke (call (CallElement ''div'')) 0 ?h) = Inl DuplicateViolation"
    by (simp del: call.simps facade.simps)
  from repeated_kind [OF c, of "CallClass ''x''", THEN conjunct2, THEN mp, OF b, THEN spec,
      of "[CallClass ''y'', CallClass ''z'']", THEN mp, OF k]
  have 2: "fst (run_chain [CallClass ''y'', CallClass ''z''] (Inr 0, ?h)) = Inr 0" .
  from e a b k 1 2 show ?thesis
    by (simp only: duplicate_message_def) simp
qed

subsection \<open>combine\<close>

lemma combine_eq:
  "a < length h \<Longrightarrow> b < length h \<Longrightarrow>
   cssSelectorBuilder_combine a c b h =
     (Inr (length h),
      h @ [(CssCreator_constructor None)
             \<lparr>template := CssCreator_stringify (h ! a) @ '' '' @ c @ '' '' @
                           CssCreator_stringify (h ! b)\<rparr>])"
  by (simp add: cssSelectorBuilder_combine_def new_CssCreator_def invoke_def
      CssCreator_combine_def CssCreator_constructor_def nth_append)

text \<open>
  Claim C4. For builders \<open>x\<close>, \<open>y\<close> in any state and any combinator \<open>c\<close>, the
  entry point \<^verbatim>\<open>combine(x, c, y)\<close> returns a fresh builder whose
  \<^verbatim>\<open>stringify()\<close> is \<^verbatim>\<open>x.stringify()\<close>, a space, \<open>c\<close>, a space,
  \<^verbatim>\<open>y.stringify()\<close>. It never throws and records no kind: nothing of the operands
  is validated. Nesting composes the same way: \<^verbatim>\<open>combine(combine(x, c, y), d, z)\<close>
  stringifies to the three texts joined by \<open>c\<close> and \<open>d\<close>, each between single spaces.
\<close>

theorem combine_stringify:
  assumes "x < length h" and "y < length h" and "z < length h"
  shows "fst (cssSelectorBuilder_combine x c y h) = Inr (length h) \<and>
         CssCreator_stringify (snd (cssSelectorBuilder_combine x c y h) ! length h)
           = CssCreator_stringify (h ! x) @ '' '' @ c @ '' '' @ CssCreator_stringify (h ! y) \<and>
         sortL (snd (cssSelectorBuilder_combine x c y h) ! length h) = [] \<and>
         fst (cssSelectorBuilder_combine (length h) d z (snd (cssSelectorBuilder_combine x c y h)))
           = Inr (length h + 1) \<and>
         CssCreator_stringify
           (snd (cssSelectorBuilder_combine (length h) d z (snd (cssSelectorBuilder_combine x c y h)))
              ! (length h + 1))
           = CssCreator_stringify (h ! x) @ '' '' @ c @ '' '' @ CssCreator_stringify (h ! y)
               @ '' '' @ d @ '' '' @ CssCreator_stringify (h ! z)"
  using assms
  by (simp add: combine_eq nth_append CssCreator_stringify_def CssCreator_constructor_def)



lemma invoke_all_frame:
  "r < length h \<Longrightarrow> a \<noteq> r \<Longrightarrow> invoke_all ms r h ! a = h ! a"
proof (induction ms arbitrary: h)
  case Nil
  show ?case by simp
next
  case (Cons m ms)
  from Cons.prems have "r < length (snd (invoke m r h))" by (simp add: invoke_length)
  from Cons.IH [OF this Cons.prems(2)] Cons.prems show ?case by (simp add: invoke_nth)
qed

text \<open>
  Claim C10. The entry point \<^verbatim>\<open>combine(a, c, b)\<close> leaves its operands as they were:
  the objects at \<open>a\<close> and \<open>b\<close>, hence what their \<^verbatim>\<open>stringify()\<close> returns, are
  the same after the call, and stay the same whatever methods \<open>ms\<close> are then called on
  the fresh builder that was returned.
\<close>

theorem combine_leaves_operands:
  assumes "a < length h" and "b < length h"
  shows "fst (cssSelectorBuilder_combine a c b h) = Inr (length h) \<and>
         snd (cssSelectorBuilder_combine a c b h) ! a = h ! a \<and>
         snd (cssSelectorBuilder_combine a c b h) ! b = h ! b \<and>
         CssCreator_stringify (snd (cssSelectorBuilder_combine a c b h) ! a)
           = CssCreator_stringify (h ! a) \<and>
         CssCreator_stringify (snd (cssSelectorBuilder_combine a c b h) ! b)
           = CssCreator_stringify (h ! b) \<and>
         invoke_all ms (length h) (snd (cssSelectorBuilder_combine a c b h)) ! a = h ! a \<and>
         invoke_all ms (length h) (snd (cssSelectorBuilder_combine a c b h)) ! b = h ! b"
  using assms
  by (simp add: combine_eq invoke_all_frame nth_append)

theorem combine_stringify_witness:
  "(0::nat) < length example_store \<and> (1::nat) < length example_store \<and>
   (2::nat) < length example_store \<and>
   fst (cssSelectorBuilder_combine 0 ''~'' 1 example_store) = Inr 3 \<and>
   CssCreator_stringify (snd (cssSelectorBuilder_combine 0 ''~'' 1 example_store) ! 3)
     = ''div ~ #main'' \<and>
   CssCreator_stringify
     (snd (cssSelectorBuilder_combine 3 ''+'' 2
            (snd (cssSelectorBuilder_combine 0 ''~'' 1 example_store))) ! 4)
     = ''div ~ #main + .box''"
proof -
  have l: "length example_store = 3" by (simp add: example_store_def eval_defs)
  have s: "CssCreator_stringify (example_store ! 0) = ''div'' \<and>
           CssCreator_stringify (example_store ! 1) = ''#main'' \<and>
           CssCreator_stringify (example_store ! 2) = ''.box''"
    by (simp add: example_store_def eval_defs)
  have 0: "(0::nat) < length example_store" and 1: "(1::nat) < length example_store"
    and 2: "(2::nat) < length example_store" by (simp_all add: l)
  from combine_stringify [OF 0 1 2, of "''~''" "''+''"] 0 1 2 s
  show ?thesis by (simp add: l)
qed

theorem combine_leaves_operands_witness:
  "(0::nat) < length example_store \<and> (1::nat) < length example_store \<and>
   CssCreator_stringify
     (invoke_all [CssCreator_element ''p'', CssCreator_element ''q'', CssCreator_attr ''r'']
        (length example_store) (snd (cssSelectorBuilder_combine 0 ''>'' 1 example_store)) ! 0)
     = ''div'' \<and>
   CssCreator_stringify
     (invoke_all [CssCreator_element ''p'', CssCreator_element ''q'', CssCreator_attr ''r'']
        (length example_store) (snd (cssSelectorBuilder_combine 0 ''>'' 1 example_store)) ! 1)
     = ''#main''"
proof -
  have l: "length example_store = 3" by (simp add: example_store_def eval_defs)
  have s: "CssCreator_stringify (example_store ! 0) = ''div'' \<and>
           CssCreator_stringify (example_store ! 1) = ''#main''"
    by (simp add: example_store_def eval_defs)
  have 0: "(0::nat) < length example_store" and 1: "(1::nat) < length example_store"
    by (simp_all add: l)
  from combine_leaves_operands [OF 0 1, of "''>''"
      "[CssCreator_element ''p'', CssCreator_element ''q'', CssCreator_attr ''r'']"] 0 1 s
  show ?thesis by (simp add: l)
qed


end
